theory Spec2Isabelle
  imports Main "HOL-Library.Sublist"
begin

section \<open>Python strings\<close>

text \<open>
  A Python \<open>str\<close> is a sequence of Unicode code points; \<open>len\<close>, \<open>count\<close>, \<open>find\<close> and
  slicing all work on code points.  A code point is modelled as a natural number and a
  string as the list of its code points.  \<open>str\<close> turns an (ASCII) literal into that form.
\<close>

type_synonym codepoint = nat
type_synonym pystr = "codepoint list"

definition str :: "string \<Rightarrow> pystr" where
  "str s = map of_char s"

definition LF :: codepoint where
  "LF = 10"

definition CR :: codepoint where
  "CR = 13"

subsection \<open>Searching: \<open>startswith\<close>, \<open>find\<close>, \<open>in\<close>, \<open>count\<close>, \<open>replace\<close>, \<open>split\<close>\<close>

text \<open>
  The primitives do not depend on what a character is, so they are stated for lists
  over any type.
\<close>

fun startswith :: "'a list \<Rightarrow> 'a list \<Rightarrow> bool" where
  "startswith s [] = True"
| "startswith [] (p # ps) = False"
| "startswith (c # cs) (p # ps) = (c = p \<and> startswith cs ps)"

text \<open>
  \<open>index_of s sub\<close> is the lowest index at which \<open>sub\<close> occurs in \<open>s\<close>, if there is one.
  \<open>s.find(sub)\<close> returns that index or \<open>-1\<close>; \<open>sub in s\<close> tests whether there is one.
\<close>

fun index_of :: "'a list \<Rightarrow> 'a list \<Rightarrow> nat option" where
  "index_of [] sub = (if sub = [] then Some 0 else None)"
| "index_of (c # cs) sub =
     (if startswith (c # cs) sub then Some 0 else map_option Suc (index_of cs sub))"

definition find_str :: "'a list \<Rightarrow> 'a list \<Rightarrow> int" where
  "find_str s sub = (case index_of s sub of None \<Rightarrow> - 1 | Some i \<Rightarrow> int i)"

definition contains :: "'a list \<Rightarrow> 'a list \<Rightarrow> bool" where
  "contains s sub = (index_of s sub \<noteq> None)"

text \<open>
  \<open>s.count(sub)\<close> scans from the left and, after each occurrence found, resumes behind
  it: it counts non-overlapping occurrences.  For the empty \<open>sub\<close> it returns
  \<open>len(s) + 1\<close>.
\<close>

fun count_from :: "'a list \<Rightarrow> 'a list \<Rightarrow> nat" where
  "count_from [] sub = 0"
| "count_from (c # cs) sub =
     (if sub \<noteq> [] \<and> startswith (c # cs) sub
      then Suc (count_from (drop (length sub - 1) cs) sub)
      else count_from cs sub)"

definition count_str :: "'a list \<Rightarrow> 'a list \<Rightarrow> nat" where
  "count_str s sub = (if sub = [] then length s + 1 else count_from s sub)"

text \<open>
  \<open>s.replace(old, new)\<close> replaces every occurrence that \<open>count\<close> counts.  For the empty
  \<open>old\<close> it puts \<open>new\<close> in front of every character and at the end.
\<close>

fun replace_from :: "'a list \<Rightarrow> 'a list \<Rightarrow> 'a list \<Rightarrow> 'a list" where
  "replace_from [] old new = []"
| "replace_from (c # cs) old new =
     (if old \<noteq> [] \<and> startswith (c # cs) old
      then new @ replace_from (drop (length old - 1) cs) old new
      else c # replace_from cs old new)"

definition replace_str :: "'a list \<Rightarrow> 'a list \<Rightarrow> 'a list \<Rightarrow> 'a list" where
  "replace_str s old new =
     (if old = [] then new @ concat (map (\<lambda>c. c # new) s) else replace_from s old new)"

text \<open>
  \<open>s.split(sep)\<close> cuts \<open>s\<close> at the occurrences that \<open>count\<close> counts.  Python raises
  \<open>ValueError\<close> for an empty separator; the program only splits at a marker literal.
\<close>

fun split_from :: "'a list \<Rightarrow> 'a list \<Rightarrow> 'a list \<Rightarrow> 'a list list" where
  "split_from cur [] sep = [cur]"
| "split_from cur (c # cs) sep =
     (if sep \<noteq> [] \<and> startswith (c # cs) sep
      then cur # split_from [] (drop (length sep - 1) cs) sep
      else split_from (cur @ [c]) cs sep)"

definition split_str :: "'a list \<Rightarrow> 'a list \<Rightarrow> 'a list list" where
  "split_str s sep = split_from [] s sep"

text \<open>\<open>sep.join(parts)\<close>.\<close>

fun join_str :: "'a list \<Rightarrow> 'a list list \<Rightarrow> 'a list" where
  "join_str sep [] = []"
| "join_str sep [p] = p"
| "join_str sep (p # q # ps) = p @ sep @ join_str sep (q # ps)"

subsection \<open>Lines and whitespace: \<open>splitlines\<close>, \<open>strip\<close>\<close>

text \<open>
  \<open>str.splitlines()\<close> ends a line at \<open>\n\<close>, \<open>\r\<close>, \<open>\r\n\<close> (one boundary), \<open>\v\<close>, \<open>\f\<close>,
  \<open>\x1c\<close>, \<open>\x1d\<close>, \<open>\x1e\<close>, \<open>\x85\<close>, \<open>\u2028\<close> and \<open>\u2029\<close>; the boundaries are not
  kept, and there is no empty last line after a final boundary.
\<close>

definition is_linebreak :: "codepoint \<Rightarrow> bool" where
  "is_linebreak c =
     (c = 10 \<or> c = 11 \<or> c = 12 \<or> c = 13 \<or> c = 28 \<or> c = 29 \<or> c = 30 \<or> c = 133 \<or>
      c = 8232 \<or> c = 8233)"

fun splitlines_from :: "pystr \<Rightarrow> pystr \<Rightarrow> pystr list" where
  "splitlines_from cur [] = (if cur = [] then [] else [cur])"
| "splitlines_from cur (c # cs) =
     (if c = CR \<and> startswith cs [LF] then cur # splitlines_from [] (drop 1 cs)
      else if is_linebreak c then cur # splitlines_from [] cs
      else splitlines_from (cur @ [c]) cs)"

definition splitlines :: "pystr \<Rightarrow> pystr list" where
  "splitlines s = splitlines_from [] s"

text \<open>
  \<open>str.strip()\<close> removes the leading and trailing characters for which \<open>isspace()\<close>
  holds: \<open>\t\<close> to \<open>\r\<close>, \<open>\x1c\<close> to \<open>\x1f\<close>, the space, \<open>\x85\<close>, \<open>\xa0\<close> and the Unicode
  spaces \<open>\u1680\<close>, \<open>\u2000\<close> to \<open>\u200a\<close>, \<open>\u2028\<close>, \<open>\u2029\<close>, \<open>\u202f\<close>, \<open>\u205f\<close>,
  \<open>\u3000\<close>.
\<close>

definition isspace :: "codepoint \<Rightarrow> bool" where
  "isspace c =
     ((9 \<le> c \<and> c \<le> 13) \<or> (28 \<le> c \<and> c \<le> 32) \<or> c = 133 \<or> c = 160 \<or> c = 5760 \<or>
      (8192 \<le> c \<and> c \<le> 8202) \<or> c = 8232 \<or> c = 8233 \<or> c = 8239 \<or> c = 8287 \<or>
      c = 12288)"

definition strip :: "pystr \<Rightarrow> pystr" where
  "strip s = rev (dropWhile isspace (rev (dropWhile isspace s)))"

text \<open>
  The positions at which \<open>sub\<close> occurs in \<open>s\<close>, overlapping ones included.  Not a Python
  primitive: it is the yardstick against which \<open>count\<close> is compared.
\<close>

definition positions :: "'a list \<Rightarrow> 'a list \<Rightarrow> nat list" where
  "positions s sub = filter (\<lambda>i. startswith (drop i s) sub) [0..<Suc (length s)]"

section \<open>The patch engine\<close>

subsection \<open>Errors\<close>

text \<open>
  Every \<open>raise ValueError(...)\<close> of the validator, the parser and the apply loop is one
  constructor; its arguments are the values the message interpolates.
\<close>

datatype error =
    UnbalancedMarkers nat nat nat
  | IncorrectSequence nat "pystr list"
  | NestedSearch nat
  | SearchTextMarkers nat
  | ReplaceTextMarkers nat
  | MissingSeparator
  | MissingReplaceMarker
  | InvalidPatchFormat
  | NotFound nat
  | MultipleMatches nat nat

subsection \<open>The markers\<close>

definition search_marker :: pystr where
  "search_marker = str ''<<<<<<< SEARCH''"

definition separator :: pystr where
  "separator = str ''=======''"

definition replace_marker :: pystr where
  "replace_marker = str ''>>>>>>> REPLACE''"

subsection \<open>\<open>validate_block_integrity\<close>\<close>

text \<open>
  The list \<open>markers\<close>: the stripped lines of the patch that are one of the three
  literals, in the order of the text.
\<close>

definition is_marker :: "pystr \<Rightarrow> bool" where
  "is_marker line = (line = search_marker \<or> line = separator \<or> line = replace_marker)"

definition marker_lines :: "pystr \<Rightarrow> pystr list" where
  "marker_lines patch_content = filter is_marker (map strip (splitlines patch_content))"

text \<open>
  \<open>for i in range(0, len(markers), 3)\<close>: a group of three is checked only when it is
  complete (\<open>i + 2 < len(markers)\<close>).  \<open>None\<close> means the loop ran through.
\<close>

function check_sequence :: "pystr list \<Rightarrow> nat \<Rightarrow> error option" where
  "check_sequence markers i =
     (if i < length markers then
        (if i + 2 < length markers \<and>
            (markers ! i \<noteq> search_marker \<or> markers ! (i + 1) \<noteq> separator \<or>
             markers ! (i + 2) \<noteq> replace_marker)
         then Some (IncorrectSequence i (take 3 (drop i markers)))
         else check_sequence markers (i + 3))
      else None)"
  by pat_completeness auto
termination
  by (relation "measure (\<lambda>(markers, i). length markers - i)") auto

declare check_sequence.simps [simp del]

text \<open>\<open>for i, section in enumerate(sections[1:], 1)\<close>.\<close>

fun check_nested :: "nat \<Rightarrow> pystr list \<Rightarrow> error option" where
  "check_nested i [] = None"
| "check_nested i (section # rest) =
     (if contains section search_marker \<and>
         find_str section replace_marker > find_str section search_marker
      then Some (NestedSearch i)
      else check_nested (i + 1) rest)"

definition validate_block_integrity :: "pystr \<Rightarrow> error + unit" where
  "validate_block_integrity patch_content =
     (let search_count = count_str patch_content search_marker;
          separator_count = count_str patch_content separator;
          replace_count = count_str patch_content replace_marker
      in
        if \<not> (search_count = separator_count \<and> separator_count = replace_count) then
          Inl (UnbalancedMarkers search_count separator_count replace_count)
        else
          (case check_sequence (marker_lines patch_content) 0 of
             Some e \<Rightarrow> Inl e
           | None \<Rightarrow>
               (case check_nested 1 (drop 1 (split_str patch_content search_marker)) of
                  Some e \<Rightarrow> Inl e
                | None \<Rightarrow> Inr ())))"

subsection \<open>\<open>parse_search_replace_blocks\<close>\<close>

text \<open>
  \<open>re.findall\<close> with the pattern
  \<open>SEARCH \n (.*?) \n ======= \n (.*?) \n REPLACE\<close> under \<open>re.DOTALL\<close>.  The pattern is a
  literal, a lazy group that matches any characters, a literal, a second such group and
  a literal.  At a start position the backtracking matcher therefore succeeds exactly
  when the text there begins with the first literal, the second literal occurs behind it
  and the third occurs behind that; the groups are the texts up to the first such
  occurrences.  (If no third literal follows the first occurrence of the second, none
  follows a later one.)  \<open>match_at\<close> returns the two groups and the text behind the match.
\<close>

definition match_at :: "pystr \<Rightarrow> (pystr \<times> pystr \<times> pystr) option" where
  "match_at s =
     (if startswith s (search_marker @ [LF]) then
        (let s1 = drop (length search_marker + 1) s in
         case index_of s1 (LF # separator @ [LF]) of
           None \<Rightarrow> None
         | Some q \<Rightarrow>
             (let s2 = drop (q + (length separator + 2)) s1 in
              case index_of s2 (LF # replace_marker) of
                None \<Rightarrow> None
              | Some t \<Rightarrow>
                  Some (take q s1, take t s2, drop (t + (length replace_marker + 1)) s2)))
      else None)"

text \<open>
  \<open>findall\<close> returns the matches from left to right without overlap: after a match
  the search resumes behind it, and where no match starts it moves on by one character.
\<close>

function regex_findall :: "pystr \<Rightarrow> (pystr \<times> pystr) list" where
  "regex_findall [] = []"
| "regex_findall (c # cs) =
     (case match_at (c # cs) of
        None \<Rightarrow> regex_findall cs
      | Some (g1, g2, rest) \<Rightarrow> (g1, g2) # regex_findall rest)"
  by pat_completeness auto
termination
  by (relation "measure length")
     (auto simp: match_at_def Let_def split: if_splits option.splits)

text \<open>\<open>any(marker in text for marker in [search_marker, separator, replace_marker])\<close>.\<close>

definition has_marker :: "pystr \<Rightarrow> bool" where
  "has_marker s =
     (contains s search_marker \<or> contains s separator \<or> contains s replace_marker)"

text \<open>The check of the regex matches: \<open>for i, (search_text, replace_text) in enumerate(matches)\<close>.\<close>

fun check_matches :: "nat \<Rightarrow> (pystr \<times> pystr) list \<Rightarrow> error option" where
  "check_matches i [] = None"
| "check_matches i ((search_text, replace_text) # rest) =
     (if has_marker search_text then Some (SearchTextMarkers (i + 1))
      else if has_marker replace_text then Some (ReplaceTextMarkers (i + 1))
      else check_matches (i + 1) rest)"

text \<open>
  The inner loops of the line scan: \<open>for j in range(start, len(lines))\<close> with a \<open>break\<close>
  at the first line equal to \<open>x\<close>.  \<open>None\<close> stands for the index left at \<open>-1\<close>.
\<close>

function find_line :: "pystr list \<Rightarrow> pystr \<Rightarrow> nat \<Rightarrow> nat option" where
  "find_line lines x j =
     (if j < length lines then
        (if lines ! j = x then Some j else find_line lines x (j + 1))
      else None)"
  by pat_completeness auto
termination
  by (relation "measure (\<lambda>(lines, x, j). length lines - j)") auto

declare find_line.simps [simp del]

lemma find_line_lower: "find_line lines x j = Some k \<Longrightarrow> j \<le> k"
proof (induction lines x j rule: find_line.induct)
  case (1 lines x j)
  from "1.prems" show ?case
    by (subst (asm) find_line.simps) (auto split: if_splits dest: "1.IH")
qed

text \<open>The \<open>while i < len(lines)\<close> loop of the line scan; \<open>blocks\<close> is its accumulator.\<close>

function scan_lines ::
  "pystr list \<Rightarrow> nat \<Rightarrow> (pystr \<times> pystr) list \<Rightarrow> error + (pystr \<times> pystr) list" where
  "scan_lines lines i blocks =
     (if i < length lines then
        (if lines ! i = search_marker then
           (let search_start = i + 1 in
            case find_line lines separator search_start of
              None \<Rightarrow> Inl MissingSeparator
            | Some separator_idx \<Rightarrow>
                (case find_line lines replace_marker (separator_idx + 1) of
                   None \<Rightarrow> Inl MissingReplaceMarker
                 | Some replace_end \<Rightarrow>
                     (let search_text =
                            join_str [LF]
                              (take (separator_idx - search_start) (drop search_start lines));
                          replace_text =
                            join_str [LF]
                              (take (replace_end - (separator_idx + 1))
                                 (drop (separator_idx + 1) lines))
                      in
                        if has_marker search_text then
                          Inl (SearchTextMarkers (length blocks + 1))
                        else if has_marker replace_text then
                          Inl (ReplaceTextMarkers (length blocks + 1))
                        else
                          scan_lines lines (replace_end + 1)
                            (blocks @ [(search_text, replace_text)]))))
         else scan_lines lines (i + 1) blocks)
      else Inr blocks)"
  by pat_completeness auto
termination
proof (relation "measure (\<lambda>(lines, i, blocks). length lines - i)", goal_cases)
  case 1
  then show ?case by simp
next
  case (2 lines i blocks search_start separator_idx replace_end)
  then have "i + 1 \<le> separator_idx" "separator_idx + 1 \<le> replace_end"
    by (auto dest: find_line_lower)
  with 2 show ?case by simp
next
  case 3
  then show ?case by simp
qed

declare scan_lines.simps [simp del]

definition parse_search_replace_blocks :: "pystr \<Rightarrow> error + (pystr \<times> pystr) list" where
  "parse_search_replace_blocks patch_content =
     (case validate_block_integrity patch_content of
        Inl e \<Rightarrow> Inl e
      | Inr _ \<Rightarrow>
          (let matches = regex_findall patch_content in
           if matches = [] then
             (case scan_lines (splitlines patch_content) 0 [] of
                Inl e \<Rightarrow> Inl e
              | Inr blocks \<Rightarrow> if blocks \<noteq> [] then Inr blocks else Inl InvalidPatchFormat)
           else
             (case check_matches 0 matches of
                Some e \<Rightarrow> Inl e
              | None \<Rightarrow> Inr matches)))"

subsection \<open>The apply loop of \<open>update_project_memory\<close>\<close>

text \<open>
  The \<open>for i, (search_text, replace_text) in enumerate(blocks)\<close> loop.  Its state is
  \<open>current_content\<close> and \<open>applied_blocks\<close>; \<open>i\<close> is the index \<open>enumerate\<close> supplies.
  A \<open>raise\<close> leaves the loop with the error.
\<close>

fun apply_loop :: "nat \<Rightarrow> 'a list \<times> nat \<Rightarrow> ('a list \<times> 'a list) list \<Rightarrow> error + ('a list \<times> nat)" where
  "apply_loop i (current_content, applied_blocks) [] = Inr (current_content, applied_blocks)"
| "apply_loop i (current_content, applied_blocks) ((search_text, replace_text) # rest) =
     (let count = count_str current_content search_text in
      if count = 1 then
        apply_loop (i + 1)
          (replace_str current_content search_text replace_text, applied_blocks + 1) rest
      else if count > 1 then Inl (MultipleMatches (i + 1) count)
      else Inl (NotFound (i + 1)))"

definition apply_blocks :: "'a list \<Rightarrow> ('a list \<times> 'a list) list \<Rightarrow> error + ('a list \<times> nat)" where
  "apply_blocks original_content blocks = apply_loop 0 (original_content, 0) blocks"

subsection \<open>\<open>update_project_memory\<close>\<close>











section \<open>Notions of the specification\<close>

text \<open>
  The specification counts a marker by the lines that, trimmed, are equal to it.
\<close>

definition trimmed_line_count :: "pystr \<Rightarrow> pystr \<Rightarrow> nat" where
  "trimmed_line_count patch_content marker =
     length (filter (\<lambda>line. strip line = marker) (splitlines patch_content))"

text \<open>
  A patch text is well formed with \<open>n\<close> marker triples when its marker lines (trimmed)
  are \<open>n\<close> times the SEARCH marker, the separator, the REPLACE marker, in this order.
\<close>

definition well_formed_patch :: "pystr \<Rightarrow> nat \<Rightarrow> bool" where
  "well_formed_patch patch_content n \<longleftrightarrow>
     marker_lines patch_content =
       concat (replicate n [search_marker, separator, replace_marker])"

text \<open>A text given by its lines, joined by \<open>\n\<close>.\<close>

definition text_of_lines :: "string list \<Rightarrow> pystr" where
  "text_of_lines ls = join_str [LF] (map str ls)"

text \<open>A text given by its lines, joined by \<open>\r\n\<close>.\<close>

definition text_of_crlf_lines :: "string list \<Rightarrow> pystr" where
  "text_of_crlf_lines ls = join_str [CR, LF] (map str ls)"

text \<open>
  A patch text laid out block by block.  The text is a sequence of segments joined by
  \<open>\n\<close>.  Every block contributes the five segments SEARCH marker, search text,
  separator, replace text, REPLACE marker, so that each marker is exactly one line and
  each payload has at least one (possibly empty) line; \<open>pre\<close> are further segments in
  front of the block and \<open>post\<close> are the segments behind the last block.
\<close>

fun block_segments :: "pystr list \<times> pystr \<times> pystr \<Rightarrow> pystr list" where
  "block_segments (pre, search_text, replace_text) =
     pre @ [search_marker, search_text, separator, replace_text, replace_marker]"

definition patch_text :: "(pystr list \<times> pystr \<times> pystr) list \<Rightarrow> pystr list \<Rightarrow> pystr" where
  "patch_text items post = join_str [LF] (concat (map block_segments items) @ post)"

text \<open>No payload and no further segment contains a marker literal.\<close>

fun marker_free_item :: "pystr list \<times> pystr \<times> pystr \<Rightarrow> bool" where
  "marker_free_item (pre, search_text, replace_text) \<longleftrightarrow>
     list_all (\<lambda>g. \<not> has_marker g) pre \<and> \<not> has_marker search_text \<and>
     \<not> has_marker replace_text"

section \<open>Facts about the string primitives\<close>

lemma startswith_iff_append: "startswith s p \<longleftrightarrow> (\<exists>t. s = p @ t)"
  by (induction s p rule: startswith.induct) auto

lemma startswith_append_same [simp]: "startswith (p @ t) p"
  by (simp add: startswith_iff_append)

lemma startswith_iff_take: "startswith s p \<longleftrightarrow> take (length p) s = p"
  by (metis append_eq_conv_conj append_take_drop_id startswith_iff_append)

lemma startswith_length: "startswith s p \<Longrightarrow> length p \<le> length s"
  by (auto simp: startswith_iff_append)

lemma startswith_Nil_left [simp]: "startswith [] p \<longleftrightarrow> p = []"
  by (cases p) auto

lemma index_of_Some_iff:
  "index_of s sub = Some i \<longleftrightarrow>
     i \<le> length s \<and> startswith (drop i s) sub \<and> (\<forall>j<i. \<not> startswith (drop j s) sub)"
proof (induction s arbitrary: i)
  case Nil
  then show ?case by auto
next
  case (Cons c cs)
  show ?case
  proof (cases "startswith (c # cs) sub")
    case True
    then show ?thesis by (cases i) auto
  next
    case False
    show ?thesis
    proof (cases i)
      case 0
      with False show ?thesis by simp
    next
      case (Suc k)
      have "(\<forall>j<Suc k. \<not> startswith (drop j (c # cs)) sub) \<longleftrightarrow>
            (\<forall>j<k. \<not> startswith (drop j cs) sub)"
        using False by (auto simp: less_Suc_eq_0_disj)
      with False Suc Cons.IH [of k] show ?thesis by auto
    qed
  qed
qed

lemma index_of_None_iff:
  "index_of s sub = None \<longleftrightarrow> (\<forall>j\<le>length s. \<not> startswith (drop j s) sub)"
proof (induction s)
  case Nil
  then show ?case by auto
next
  case (Cons c cs)
  have "(\<forall>j\<le>length (c # cs). \<not> startswith (drop j (c # cs)) sub) \<longleftrightarrow>
        \<not> startswith (c # cs) sub \<and> (\<forall>j\<le>length cs. \<not> startswith (drop j cs) sub)"
    (is "?L \<longleftrightarrow> ?R")
  proof
    assume l: ?L
    have "\<not> startswith (drop j cs) sub" if "j \<le> length cs" for j
      using l [rule_format, of "Suc j"] that by simp
    moreover have "\<not> startswith (c # cs) sub"
      using l [rule_format, of 0] by simp
    ultimately show ?R by blast
  next
    assume r: ?R
    show ?L
    proof (intro allI impI)
      fix j
      assume "j \<le> length (c # cs)"
      with r show "\<not> startswith (drop j (c # cs)) sub"
        by (cases j) auto
    qed
  qed
  with Cons show ?case by auto
qed

lemma index_of_split:
  assumes "index_of s sub = Some i"
  shows "s = take i s @ sub @ drop (i + length sub) s"
proof -
  from assms have "startswith (drop i s) sub"
    by (simp add: index_of_Some_iff)
  then obtain t where t: "drop i s = sub @ t"
    by (auto simp: startswith_iff_append)
  then have "drop (i + length sub) s = t"
    by (metis add.commute append_eq_conv_conj drop_drop)
  with t show ?thesis
    by (metis append_take_drop_id)
qed

lemma contains_iff: "contains s sub \<longleftrightarrow> (\<exists>pre post. s = pre @ sub @ post)"
proof
  assume "contains s sub"
  then obtain i where "index_of s sub = Some i"
    by (auto simp: contains_def)
  from index_of_split [OF this] show "\<exists>pre post. s = pre @ sub @ post"
    by blast
next
  assume "\<exists>pre post. s = pre @ sub @ post"
  then obtain pre post where s: "s = pre @ sub @ post"
    by blast
  have "startswith (drop (length pre) s) sub" "length pre \<le> length s"
    by (simp_all add: s)
  then have "index_of s sub \<noteq> None"
    unfolding index_of_None_iff by blast
  then show "contains s sub"
    by (simp add: contains_def)
qed

lemma count_from_index:
  "sub \<noteq> [] \<Longrightarrow> count_from s sub =
     (case index_of s sub of None \<Rightarrow> 0
      | Some i \<Rightarrow> Suc (count_from (drop (i + length sub) s) sub))"
proof (induction s)
  case Nil
  then show ?case by simp
next
  case (Cons c cs)
  then show ?case
    by (cases "index_of cs sub") (auto simp: drop_Cons' )
qed

lemma replace_from_index:
  "sub \<noteq> [] \<Longrightarrow> replace_from s sub new =
     (case index_of s sub of None \<Rightarrow> s
      | Some i \<Rightarrow> take i s @ new @ replace_from (drop (i + length sub) s) sub new)"
proof (induction s)
  case Nil
  then show ?case by simp
next
  case (Cons c cs)
  then show ?case
    by (cases "index_of cs sub") (auto simp: drop_Cons')
qed

lemma count_str_zero_iff: "count_str s sub = 0 \<longleftrightarrow> \<not> contains s sub"
proof (cases "sub = []")
  case True
  then show ?thesis by (cases s) (simp_all add: count_str_def contains_def)
next
  case False
  then show ?thesis
    by (simp add: count_str_def contains_def count_from_index split: option.splits)
qed

lemma count_str_one:
  assumes "count_str s sub = 1"
  shows "\<exists>pre post. s = pre @ sub @ post \<and> index_of s sub = Some (length pre) \<and>
           replace_str s sub new = pre @ new @ post"
proof (cases "sub = []")
  case True
  with assms have "s = []" by (simp add: count_str_def)
  with True show ?thesis by (simp add: replace_str_def)
next
  case False
  with assms have c: "count_from s sub = 1" by (simp add: count_str_def)
  with False obtain i where i: "index_of s sub = Some i"
    and rest: "count_from (drop (i + length sub) s) sub = 0"
    by (auto simp: count_from_index [of sub s] split: option.splits)
  from rest False have "index_of (drop (i + length sub) s) sub = None"
    by (auto simp: count_from_index [of sub "drop (i + length sub) s"] split: option.splits)
  with False have r: "replace_from (drop (i + length sub) s) sub new = drop (i + length sub) s"
    by (simp add: replace_from_index [of sub "drop (i + length sub) s"])
  have len: "length (take i s) = i"
    using i by (simp add: index_of_Some_iff)
  have "s = take i s @ sub @ drop (i + length sub) s"
    by (rule index_of_split [OF i])
  moreover have "replace_str s sub new = take i s @ new @ drop (i + length sub) s"
    using False i r by (simp add: replace_str_def replace_from_index [of sub s])
  ultimately show ?thesis
    using i len by metis
qed

lemma apply_loop_append:
  "apply_loop i st (bs1 @ bs2) =
     (case apply_loop i st bs1 of Inl e \<Rightarrow> Inl e
      | Inr st' \<Rightarrow> apply_loop (i + length bs1) st' bs2)"
proof (induction bs1 arbitrary: i st)
  case Nil
  then show ?case by (cases st) simp
next
  case (Cons b bs1)
  obtain cur k where st: "st = (cur, k)" by (cases st)
  obtain s r where b: "b = (s, r)" by (cases b)
  show ?case
    by (auto simp: st b Let_def Cons.IH split: sum.splits)
qed


lemma positions_iff: "i \<in> set (positions s sub) \<longleftrightarrow> i \<le> length s \<and> startswith (drop i s) sub"
  by (auto simp: positions_def simp del: upt_Suc)

lemma distinct_positions: "distinct (positions s sub)"
  by (simp add: positions_def)

lemma positions_unique:
  assumes "length (positions s sub) = 1" "i \<in> set (positions s sub)" "j \<in> set (positions s sub)"
  shows "i = j"
proof -
  from assms(1) obtain x where "positions s sub = [x]"
    by (cases "positions s sub") auto
  with assms(2,3) show ?thesis by simp
qed

lemma positions_Nil: "positions s [] = [0..<Suc (length s)]"
  by (simp add: positions_def)

lemma index_of_in_positions: "index_of s sub = Some i \<Longrightarrow> i \<in> set (positions s sub)"
  by (simp add: positions_iff index_of_Some_iff)

lemma position_in_middle: "length pre \<in> set (positions (pre @ sub @ post) sub)"
  by (simp add: positions_iff)

lemma position_after:
  assumes "k \<in> set (positions post sub)"
  shows "length pre + length mid + k \<in> set (positions (pre @ mid @ post) sub)"
proof -
  have "drop (length pre + length mid + k) (pre @ mid @ post) = drop k post"
    by (simp add: add.assoc)
  with assms show ?thesis
    by (simp add: positions_iff)
qed

lemma count_str_unique_position:
  assumes "length (positions (pre @ r @ post) r) = 1"
  shows "count_str (pre @ r @ post) r = 1 \<and> index_of (pre @ r @ post) r = Some (length pre)"
proof (cases "r = []")
  case True
  with assms show ?thesis
    by (simp add: positions_Nil count_str_def)
next
  case False
  let ?d = "pre @ r @ post"
  have "contains ?d r"
    unfolding contains_iff by blast
  then obtain j where j: "index_of ?d r = Some j"
    by (auto simp: contains_def)
  have "j = length pre"
    using positions_unique [OF assms index_of_in_positions [OF j] position_in_middle] .
  have "index_of post r = None"
  proof (rule ccontr)
    assume "index_of post r \<noteq> None"
    then obtain k where "index_of post r = Some k" by auto
    then have "length pre + length r + k \<in> set (positions ?d r)"
      by (intro position_after index_of_in_positions)
    from positions_unique [OF assms this position_in_middle] False
    show False by simp
  qed
  with False have "count_from post r = 0"
    by (simp add: count_from_index)
  with False j \<open>j = length pre\<close> show ?thesis
    by (simp add: count_str_def count_from_index [of r ?d])
qed

lemma apply_single:
  "apply_blocks d [(s, r)] =
     (if count_str d s = 1 then Inr (replace_str d s r, 1)
      else if count_str d s > 1 then Inl (MultipleMatches 1 (count_str d s))
      else Inl (NotFound 1))"
  by (simp add: apply_blocks_def Let_def)


section \<open>The apply loop: claims\<close>

text \<open>
  Claim C3.  For every block of the sequence, the loop counts the occurrences of the
  search text in the current document (the original with all earlier blocks applied).
  If the count is one, that occurrence is replaced by the replace text and the loop goes
  on with the next block; if it is zero, which is exactly when the search text is not a
  substring of the current document, the loop fails with the not-found error naming the
  1-based block index; if it is larger, the loop fails with the multiple-matches error
  naming the block index and the count.  On the document \<open>a b a\<close> the block \<open>a\<close> to \<open>x\<close>
  fails with the multiple-matches error reporting 2.
\<close>

theorem apply_block_by_occurrence_count:
  assumes "apply_loop 0 (original_content, 0) before = Inr (current_content, applied)"
  shows "apply_blocks original_content (before @ (search_text, replace_text) # after) =
           (if count_str current_content search_text = 1 then
              apply_loop (length before + 1)
                (replace_str current_content search_text replace_text, applied + 1) after
            else if count_str current_content search_text > 1 then
              Inl (MultipleMatches (length before + 1) (count_str current_content search_text))
            else Inl (NotFound (length before + 1)))
       \<and> (count_str current_content search_text = 1 \<longrightarrow>
            (\<exists>pre post. current_content = pre @ search_text @ post \<and>
               replace_str current_content search_text replace_text = pre @ replace_text @ post))
       \<and> (count_str current_content search_text = 0 \<longleftrightarrow>
            \<not> (\<exists>pre post. current_content = pre @ search_text @ post))
       \<and> apply_blocks (str ''a b a'') [(str ''a'', str ''x'')] = Inl (MultipleMatches 1 2)"
proof -
  have "apply_blocks original_content (before @ (search_text, replace_text) # after) =
          apply_loop (length before) (current_content, applied)
            ((search_text, replace_text) # after)"
    using assms by (simp add: apply_blocks_def apply_loop_append)
  moreover have "count_str current_content search_text = 1 \<longrightarrow>
      (\<exists>pre post. current_content = pre @ search_text @ post \<and>
         replace_str current_content search_text replace_text = pre @ replace_text @ post)"
    using count_str_one [of current_content search_text replace_text] by blast
  moreover have "count_str current_content search_text = 0 \<longleftrightarrow>
      \<not> (\<exists>pre post. current_content = pre @ search_text @ post)"
    by (simp add: count_str_zero_iff contains_iff)
  moreover have "apply_blocks (str ''a b a'') [(str ''a'', str ''x'')] = Inl (MultipleMatches 1 2)"
    by (simp add: apply_single str_def count_str_def)
  ultimately show ?thesis
    by (simp add: Let_def)
qed

theorem apply_block_by_occurrence_count_witness:
  "apply_blocks (str ''one two'')
     [(str ''one'', str ''two''), (str ''two'', str ''2''), (str ''x'', str ''y'')] =
   Inl (MultipleMatches 2 2)"
proof -
  have h: "apply_loop 0 (str ''one two'', 0) [(str ''one'', str ''two'')] = Inr (str ''two two'', 1)"
    by code_simp
  have c: "count_str (str ''two two'') (str ''two'') = 2"
    by code_simp
  from apply_block_by_occurrence_count [OF h, of "str ''two''" "str ''2''" "[(str ''x'', str ''y'')]"]
  show ?thesis
    by (simp add: c)
qed


text \<open>
  Claim C9.  A block with the empty search text, met when the current document has
  \<open>n > 0\<close> characters, fails with the multiple-matches error reporting \<open>n + 1\<close>; such a
  block applies only when the current document is empty.
\<close>

theorem empty_search_text:
  "(current_content \<noteq> [] \<longrightarrow>
      apply_loop i (current_content, applied) (([], replace_text) # rest) =
        Inl (MultipleMatches (i + 1) (length current_content + 1)))
   \<and> ((\<exists>res. apply_loop i (current_content, applied) (([], replace_text) # rest) = Inr res)
        \<longrightarrow> current_content = [])
   \<and> apply_loop i ([], applied) [([], replace_text)] = Inr (replace_text, applied + 1)"
proof -
  have "count_str current_content [] = length current_content + 1"
    by (simp add: count_str_def)
  moreover have "length current_content + 1 > 1" if "current_content \<noteq> []"
    using that by (cases current_content) simp_all
  ultimately show ?thesis
    by (auto simp: Let_def count_str_def replace_str_def)
qed

theorem empty_search_text_witness:
  "apply_loop 0 (str ''ab'', 0) [([], str ''x'')] = Inl (MultipleMatches 1 3)"
proof -
  have ne: "str ''ab'' \<noteq> []"
    by (simp add: str_def)
  have len: "length (str ''ab'') = 2"
    by (simp add: str_def)
  from empty_search_text [of "str ''ab''" 0 0 "str ''x''" "[]"] ne
  have "apply_loop 0 (str ''ab'', 0) [([], str ''x'')] =
          Inl (MultipleMatches (0 + 1) (length (str ''ab'') + 1))"
    by blast
  then show ?thesis
    by (simp add: len)
qed

text \<open>
  Claim C10.  The count is of non-overlapping occurrences: for a non-empty search text it
  is zero when the text does not occur, and otherwise one more than the count in what
  follows the end of the leftmost occurrence.  When the count is one, the block replaces
  the leftmost occurrence.  The search text \<open>aa\<close> occurs at two overlapping positions of
  \<open>aaa\<close>, is counted once, and the block \<open>aa\<close> to \<open>x\<close> applies and gives \<open>xa\<close>.
\<close>

theorem count_is_non_overlapping:
  assumes "search_text \<noteq> []"
  shows "count_str current_content search_text =
           (case index_of current_content search_text of
              None \<Rightarrow> 0
            | Some p \<Rightarrow>
                Suc (count_str (drop (p + length search_text) current_content) search_text))
       \<and> (count_str current_content search_text = 1 \<longrightarrow>
            (\<exists>p. index_of current_content search_text = Some p \<and>
               apply_blocks current_content [(search_text, replace_text)] =
                 Inr (take p current_content @ replace_text @
                      drop (p + length search_text) current_content, 1)))
       \<and> positions (str ''aaa'') (str ''aa'') = [0, 1]
       \<and> count_str (str ''aaa'') (str ''aa'') = 1
       \<and> apply_blocks (str ''aaa'') [(str ''aa'', str ''x'')] = Inr (str ''xa'', 1)"
proof -
  have "count_str current_content search_text =
           (case index_of current_content search_text of
              None \<Rightarrow> 0
            | Some p \<Rightarrow>
                Suc (count_str (drop (p + length search_text) current_content) search_text))"
    using assms
    by (simp add: count_str_def count_from_index [of search_text current_content]
        split: option.splits)
  moreover have "\<exists>p. index_of current_content search_text = Some p \<and>
               apply_blocks current_content [(search_text, replace_text)] =
                 Inr (take p current_content @ replace_text @
                      drop (p + length search_text) current_content, 1)"
    if c: "count_str current_content search_text = 1"
  proof -
    from count_str_one [OF c, of replace_text] obtain pre post where
      p: "current_content = pre @ search_text @ post"
         "index_of current_content search_text = Some (length pre)"
         "replace_str current_content search_text replace_text = pre @ replace_text @ post"
      by blast
    have "take (length pre) current_content = pre"
         "drop (length pre + length search_text) current_content = post"
      by (simp_all add: p(1))
    with p(2,3) c show ?thesis
      by (simp add: apply_single)
  qed
  moreover have "positions (str ''aaa'') (str ''aa'') = [0, 1]"
    by code_simp
  moreover have "count_str (str ''aaa'') (str ''aa'') = 1"
    by code_simp
  moreover have "apply_blocks (str ''aaa'') [(str ''aa'', str ''x'')] = Inr (str ''xa'', 1)"
    by code_simp
  ultimately show ?thesis
    by blast
qed

theorem count_is_non_overlapping_witness:
  "count_str (str ''abab'') (str ''ab'') = Suc (count_str (str ''ab'') (str ''ab''))
   \<and> count_str (str ''abab'') (str ''ab'') = 2"
proof -
  have ne: "str ''ab'' \<noteq> []"
    by (simp add: str_def)
  have i: "index_of (str ''abab'') (str ''ab'') = Some 0"
    by code_simp
  have d: "drop (length (str ''ab'')) (str ''abab'') = str ''ab''"
    by code_simp
  have c: "count_str (str ''ab'') (str ''ab'') = 1"
    by code_simp
  from count_is_non_overlapping [OF ne, of "str ''abab''" "[]"]
  have "count_str (str ''abab'') (str ''ab'') = Suc (count_str (str ''ab'') (str ''ab''))"
    by (simp add: i d)
  with c show ?thesis
    by simp
qed

text \<open>
  Claim C7, as stated, fails.  On \<open>ab\<close> the block \<open>a\<close> to \<open>b\<close> applies (one occurrence)
  and gives \<open>bb\<close>, where the inverse block \<open>b\<close> to \<open>a\<close> finds two occurrences and is
  refused.  On \<open>ab\<close> the block \<open>b\<close> to \<open>aa\<close> applies and gives \<open>aaa\<close>, where the inverse
  block \<open>aa\<close> to \<open>b\<close> is counted once, applies to the leftmost occurrence and gives \<open>ba\<close>.
\<close>

theorem round_trip_counterexample:
  "count_str (str ''ab'') (str ''a'') = 1
   \<and> apply_blocks (str ''ab'') [(str ''a'', str ''b'')] = Inr (str ''bb'', 1)
   \<and> apply_blocks (str ''bb'') [(str ''b'', str ''a'')] = Inl (MultipleMatches 1 2)
   \<and> count_str (str ''ab'') (str ''b'') = 1
   \<and> apply_blocks (str ''ab'') [(str ''b'', str ''aa'')] = Inr (str ''aaa'', 1)
   \<and> apply_blocks (str ''aaa'') [(str ''aa'', str ''b'')] = Inr (str ''ba'', 1)
   \<and> str ''ba'' \<noteq> str ''ab''"
  by (simp add: apply_single str_def count_str_def replace_str_def)

text \<open>
  Claim C7, amended.  If a single block applies to a document \<open>D\<close> (its search text is
  counted once) and the replace text occurs at exactly one position of the result, then
  the inverse block applies to the result and restores \<open>D\<close>.
\<close>

theorem round_trip_when_replace_text_is_unique:
  assumes "apply_blocks D [(search_text, replace_text)] = Inr (D', n)"
    and "length (positions D' replace_text) = 1"
  shows "apply_blocks D' [(replace_text, search_text)] = Inr (D, 1)"
proof -
  from assms(1) have c: "count_str D search_text = 1"
    and D': "D' = replace_str D search_text replace_text"
    by (auto simp: apply_single split: if_splits)
  from count_str_one [OF c, of replace_text] D' obtain pre post where
    D: "D = pre @ search_text @ post" and D'2: "D' = pre @ replace_text @ post"
    by auto
  from assms(2) have u: "count_str D' replace_text = 1"
    "index_of D' replace_text = Some (length pre)"
    using count_str_unique_position [of pre replace_text post] by (simp_all add: D'2)
  from count_str_one [OF u(1), of search_text] obtain pre' post' where
    p: "D' = pre' @ replace_text @ post'" "index_of D' replace_text = Some (length pre')"
       "replace_str D' replace_text search_text = pre' @ search_text @ post'"
    by auto
  from p(2) u(2) have "length pre' = length pre" by simp
  with p(1) D'2 have "pre' = pre" "post' = post" by auto
  with p(3) D u(1) show ?thesis
    by (simp add: apply_single)
qed

theorem round_trip_when_replace_text_is_unique_witness:
  "apply_blocks (str ''xay'') [(str ''a'', str ''b'')] = Inr (str ''xby'', 1)"
proof -
  have h1: "apply_blocks (str ''xby'') [(str ''b'', str ''a'')] = Inr (str ''xay'', 1)"
    by code_simp
  have h2: "length (positions (str ''xay'') (str ''a'')) = 1"
    by code_simp
  from round_trip_when_replace_text_is_unique [OF h1 h2] show ?thesis .
qed

section \<open>The validator and the update: facts and claims\<close>

lemma split_from_index:
  "sep \<noteq> [] \<Longrightarrow> split_from cur s sep =
     (case index_of s sep of None \<Rightarrow> [cur @ s]
      | Some i \<Rightarrow> (cur @ take i s) # split_from [] (drop (i + length sep) s) sep)"
proof (induction s arbitrary: cur)
  case Nil
  then show ?case by simp
next
  case (Cons c cs)
  then show ?case
    by (cases "index_of cs sep") (auto simp: drop_Cons')
qed

lemma take_index_of_free:
  assumes "index_of s sep = Some i" and "sep \<noteq> []"
  shows "\<not> contains (take i s) sep"
proof
  assume "contains (take i s) sep"
  then obtain j where j: "index_of (take i s) sep = Some j"
    by (auto simp: contains_def)
  then have st: "startswith (drop j (take i s)) sep" and "j \<le> length (take i s)"
    by (simp_all add: index_of_Some_iff)
  from assms have i: "i \<le> length s" "startswith (drop i s) sep"
    and mini: "\<forall>k<i. \<not> startswith (drop k s) sep"
    by (simp_all add: index_of_Some_iff)
  from st obtain t where t: "drop j (take i s) = sep @ t"
    by (auto simp: startswith_iff_append)
  have "drop j s = drop j (take i s) @ drop i s"
    using \<open>j \<le> length (take i s)\<close> i(1)
    by (metis append_take_drop_id drop_append length_take min.absorb2 diff_is_0_eq drop0)
  then have "startswith (drop j s) sep"
    by (simp add: t startswith_iff_append)
  with mini have "\<not> j < i" by blast
  with \<open>j \<le> length (take i s)\<close> i(1) have "j = i" by simp
  with t i(1) have "sep = []" by simp
  with assms(2) show False by simp
qed

lemma split_from_pieces_free:
  assumes "sep \<noteq> []"
  shows "\<forall>x \<in> set (split_from [] s sep). \<not> contains x sep"
proof (induction "length s" arbitrary: s rule: less_induct)
  case less
  show ?case
  proof (cases "index_of s sep")
    case None
    then show ?thesis
      using assms by (simp add: split_from_index contains_def)
  next
    case (Some i)
    have "length (drop (i + length sep) s) < length s"
      using Some assms by (cases s) (auto simp: index_of_Some_iff)
    from less [OF this] take_index_of_free [OF Some assms] Some assms show ?thesis
      by (simp add: split_from_index)
  qed
qed

lemma check_nested_None:
  "\<forall>x \<in> set sections. \<not> contains x search_marker \<Longrightarrow> check_nested i sections = None"
  by (induction sections arbitrary: i) auto

lemma search_marker_not_Nil: "search_marker \<noteq> []"
  by (simp add: search_marker_def str_def)

lemma check_nested_split: "check_nested i (drop (Suc 0) (split_str p search_marker)) = None"
proof (rule check_nested_None)
  show "\<forall>x\<in>set (drop (Suc 0) (split_str p search_marker)). \<not> contains x search_marker"
    using split_from_pieces_free [OF search_marker_not_Nil, of p]
    by (auto simp: split_str_def dest: in_set_dropD)
qed

lemma check_sequence_error:
  "check_sequence markers i = Some e \<Longrightarrow> \<exists>j ms. e = IncorrectSequence j ms"
proof (induction markers i rule: check_sequence.induct)
  case (1 markers i)
  from "1.prems" show ?case
    by (subst (asm) check_sequence.simps) (auto split: if_splits dest: "1.IH")
qed

lemma validate_cases:
  "validate_block_integrity p =
     (if \<not> (count_str p search_marker = count_str p separator \<and>
             count_str p separator = count_str p replace_marker)
      then Inl (UnbalancedMarkers (count_str p search_marker) (count_str p separator)
                  (count_str p replace_marker))
      else (case check_sequence (marker_lines p) 0 of Some e \<Rightarrow> Inl e | None \<Rightarrow> Inr ()))"
  by (simp add: validate_block_integrity_def Let_def check_nested_split split: option.splits)




lemmas eval_defs =
  text_of_lines_def str_def LF_def CR_def search_marker_def separator_def replace_marker_def
  splitlines_def is_linebreak_def strip_def isspace_def is_marker_def marker_lines_def
  count_str_def contains_def find_str_def split_str_def has_marker_def Let_def
  match_at_def

text \<open>
  Claim C5, as stated, fails in both directions.  In the first text the search payload
  is a line of eight \<open>=\<close>: each marker is one trimmed line, yet the separator is counted
  twice and validation fails as unbalanced.  In the second text only the SEARCH marker
  is a line of its own, the other two stand inside a line, and validation succeeds.
\<close>

theorem balance_by_lines_counterexample:
  "trimmed_line_count
     (text_of_lines [''<<<<<<< SEARCH'', ''========'', ''======='', ''b'', ''>>>>>>> REPLACE''])
     search_marker = 1
   \<and> trimmed_line_count
     (text_of_lines [''<<<<<<< SEARCH'', ''========'', ''======='', ''b'', ''>>>>>>> REPLACE''])
     separator = 1
   \<and> trimmed_line_count
     (text_of_lines [''<<<<<<< SEARCH'', ''========'', ''======='', ''b'', ''>>>>>>> REPLACE''])
     replace_marker = 1
   \<and> validate_block_integrity
     (text_of_lines [''<<<<<<< SEARCH'', ''========'', ''======='', ''b'', ''>>>>>>> REPLACE''])
     = Inl (UnbalancedMarkers 1 2 1)
   \<and> trimmed_line_count
     (text_of_lines [''<<<<<<< SEARCH'', ''======= x >>>>>>> REPLACE'']) search_marker = 1
   \<and> trimmed_line_count
     (text_of_lines [''<<<<<<< SEARCH'', ''======= x >>>>>>> REPLACE'']) separator = 0
   \<and> trimmed_line_count
     (text_of_lines [''<<<<<<< SEARCH'', ''======= x >>>>>>> REPLACE'']) replace_marker = 0
   \<and> validate_block_integrity
     (text_of_lines [''<<<<<<< SEARCH'', ''======= x >>>>>>> REPLACE'']) = Inr ()"
  by (simp add: eval_defs trimmed_line_count_def validate_cases check_sequence.simps)

text \<open>
  Claim C5, amended.  The balance check counts, for each of the three marker literals,
  its non-overlapping occurrences as a substring anywhere in the patch text.  Validation
  fails with the unbalanced-markers error exactly when these three counts are not all
  equal, and the error reports the three counts.
\<close>

theorem balance_check_counts_substrings:
  "validate_block_integrity patch_content = Inl (UnbalancedMarkers a b c) \<longleftrightarrow>
     a = count_str patch_content search_marker \<and>
     b = count_str patch_content separator \<and>
     c = count_str patch_content replace_marker \<and>
     \<not> (a = b \<and> b = c)"
  by (auto simp: validate_cases split: option.splits dest: check_sequence_error)

theorem balance_check_counts_substrings_witness:
  "validate_block_integrity (str ''<<<<<<< SEARCH ======='') = Inl (UnbalancedMarkers 1 1 0)"
proof -
  have "count_str (str ''<<<<<<< SEARCH ======='') search_marker = 1"
       "count_str (str ''<<<<<<< SEARCH ======='') separator = 1"
       "count_str (str ''<<<<<<< SEARCH ======='') replace_marker = 0"
    by (simp_all add: eval_defs)
  then show ?thesis
    using balance_check_counts_substrings [of "str ''<<<<<<< SEARCH =======''" 1 1 0]
    by simp
qed

text \<open>
  Claim C6 does not hold of the code.  The sections that the nesting check inspects
  come from splitting the text at the SEARCH marker, so none of them contains that
  marker and the check never fires: validation never returns the nested-marker error.
  In the text below, the first block has a second SEARCH marker in its search payload,
  before the block's first REPLACE marker; validation accepts the text.
\<close>

theorem nested_search_marker_is_never_reported:
  "validate_block_integrity patch_content \<noteq> Inl (NestedSearch i)
   \<and> split_str
       (text_of_lines [''<<<<<<< SEARCH'', ''x <<<<<<< SEARCH ======= >>>>>>> REPLACE'',
          ''======='', ''y'', ''>>>>>>> REPLACE'']) search_marker
       = [[], LF # str ''x '',
          str '' ======= >>>>>>> REPLACE'' @ LF # str ''======='' @ LF # str ''y'' @ LF #
          str ''>>>>>>> REPLACE'']
   \<and> validate_block_integrity
       (text_of_lines [''<<<<<<< SEARCH'', ''x <<<<<<< SEARCH ======= >>>>>>> REPLACE'',
          ''======='', ''y'', ''>>>>>>> REPLACE''])
       = Inr ()"
proof -
  have "validate_block_integrity patch_content \<noteq> Inl (NestedSearch i)"
    by (auto simp: validate_cases split: option.splits dest: check_sequence_error)
  then show ?thesis
    by (simp add: eval_defs validate_cases check_sequence.simps)
qed




section \<open>Patch texts made of exact blocks: facts and claims\<close>

lemma startswith_append_barrier:
  "c \<notin> set m \<Longrightarrow> startswith (a @ c # b) m \<longleftrightarrow> startswith a m"
  by (induction a m rule: startswith.induct) auto

lemma count_from_append_barrier:
  "c \<notin> set m \<Longrightarrow> count_from (a @ c # b) m = count_from a m + count_from b m"
proof (induction a m rule: count_from.induct)
  case (1 sub)
  then have "\<not> startswith (c # b) sub \<or> sub = []"
    by (cases sub) auto
  then show ?case by auto
next
  case (2 x xs sub)
  show ?case
  proof (cases "sub \<noteq> [] \<and> startswith (x # xs) sub")
    case True
    then have "length sub - 1 \<le> length xs"
      using startswith_length [of "x # xs" sub] by simp
    then have "drop (length sub - 1) (xs @ c # b) = drop (length sub - 1) xs @ c # b"
      by simp
    moreover have "startswith ((x # xs) @ c # b) sub"
      using True startswith_append_barrier [OF 2(3), of "x # xs" b] by blast
    ultimately show ?thesis
      using True 2(1) [OF True 2(3)] by simp
  next
    case False
    then have "\<not> (sub \<noteq> [] \<and> startswith ((x # xs) @ c # b) sub)"
      using startswith_append_barrier [OF 2(3), of "x # xs" b] by blast
    then show ?thesis
      using False 2(2) [OF False 2(3)] by auto
  qed
qed

lemma count_str_append_barrier:
  "m \<noteq> [] \<Longrightarrow> c \<notin> set m \<Longrightarrow>
     count_str (a @ c # b) m = count_str a m + count_str b m"
  by (simp add: count_str_def count_from_append_barrier)

lemma count_str_join:
  assumes "m \<noteq> []" "c \<notin> set m"
  shows "count_str (join_str [c] segs) m = sum_list (map (\<lambda>s. count_str s m) segs)"
proof (induction "[c]" segs rule: join_str.induct)
  case 1
  with assms show ?case by (simp add: count_str_def)
next
  case (2 p)
  show ?case by simp
next
  case (3 p q ps)
  with assms show ?case
    by (simp add: count_str_append_barrier)
qed

lemma is_linebreak_LF: "is_linebreak LF"
  by (simp add: is_linebreak_def LF_def)

lemma splitlines_from_append_LF:
  assumes "\<not> P []"
  shows "filter P (splitlines_from cur (a @ LF # b)) =
         filter P (splitlines_from cur a) @ filter P (splitlines_from [] b)"
proof (induction cur a rule: splitlines_from.induct)
  case (1 cur)
  with assms show ?case
    by (auto simp: is_linebreak_def LF_def CR_def)
next
  case (2 cur c cs)
  show ?case
  proof (cases "c = CR \<and> startswith cs [LF]")
    case True
    then obtain cs' where cs: "cs = LF # cs'"
      by (cases cs) auto
    with True 2(1) show ?thesis by simp
  next
    case notcrlf: False
    show ?thesis
    proof (cases "is_linebreak c")
      case True
      have rhs: "splitlines_from cur (c # cs) = cur # splitlines_from [] cs"
        using notcrlf True by auto
      show ?thesis
      proof (cases "c = CR \<and> cs = []")
        case crlast: True
        then have "splitlines_from cur ((c # cs) @ LF # b) = cur # splitlines_from [] b"
          by simp
        moreover have "splitlines_from cur (c # cs) = [cur]"
          using rhs crlast by simp
        ultimately show ?thesis by simp
      next
        case False
        with notcrlf have "\<not> (c = CR \<and> startswith (cs @ LF # b) [LF])"
          by (cases cs) auto
        then have lhs: "splitlines_from cur ((c # cs) @ LF # b) =
            cur # splitlines_from [] (cs @ LF # b)"
          using True by auto
        from 2(2) [OF notcrlf True] lhs rhs show ?thesis by simp
      qed
    next
      case False
      then have "c \<noteq> CR"
        by (auto simp: is_linebreak_def CR_def)
      then have "splitlines_from cur ((c # cs) @ LF # b) =
            splitlines_from (cur @ [c]) (cs @ LF # b)"
        and "splitlines_from cur (c # cs) = splitlines_from (cur @ [c]) cs"
        using False by auto
      with 2(3) [OF notcrlf False] show ?thesis by simp
    qed
  qed
qed

lemma strip_Nil: "strip [] = []"
  by (simp add: strip_def)

lemma is_marker_Nil: "\<not> is_marker []"
  by (simp add: is_marker_def search_marker_def separator_def replace_marker_def str_def)

lemma marker_lines_append_LF:
  "marker_lines (a @ LF # b) = marker_lines a @ marker_lines b"
proof -
  have "filter (is_marker \<circ> strip) (splitlines_from [] (a @ LF # b)) =
        filter (is_marker \<circ> strip) (splitlines_from [] a) @
        filter (is_marker \<circ> strip) (splitlines_from [] b)"
    by (rule splitlines_from_append_LF) (simp add: strip_Nil is_marker_Nil)
  then have "map strip (filter (is_marker \<circ> strip) (splitlines_from [] (a @ LF # b))) =
        map strip (filter (is_marker \<circ> strip) (splitlines_from [] a)) @
        map strip (filter (is_marker \<circ> strip) (splitlines_from [] b))"
    by simp
  then show ?thesis
    by (simp add: marker_lines_def splitlines_def filter_map)
qed

lemma marker_lines_Nil: "marker_lines [] = []"
  by (simp add: marker_lines_def splitlines_def)

lemma marker_lines_join:
  "marker_lines (join_str [LF] segs) = concat (map marker_lines segs)"
proof (induction "[LF]" segs rule: join_str.induct)
  case 1
  show ?case by (simp add: marker_lines_Nil)
next
  case (2 p)
  show ?case by simp
next
  case (3 p q ps)
  then show ?case
    by (simp add: marker_lines_append_LF)
qed

lemma splitlines_from_sub:
  "x \<in> set (splitlines_from cur s) \<Longrightarrow> \<exists>u v. cur @ s = u @ x @ v"
proof (induction cur s rule: splitlines_from.induct)
  case (1 cur)
  then show ?case
    by (auto split: if_splits intro: exI [of _ "[]"])
next
  case (2 cur c cs)
  show ?case
  proof (cases "c = CR \<and> startswith cs [LF]")
    case True
    then obtain cs' where cs: "cs = LF # cs'"
      by (cases cs) auto
    from 2(4) True cs have "x = cur \<or> x \<in> set (splitlines_from [] cs')"
      by simp
    then show ?thesis
    proof
      assume "x = cur"
      then have "cur @ c # cs = [] @ x @ (c # cs)" by simp
      then show ?thesis by blast
    next
      assume "x \<in> set (splitlines_from [] cs')"
      with 2(1) True cs obtain u v where "cs' = u @ x @ v" by auto
      then have "cur @ c # cs = (cur @ c # LF # u) @ x @ v" by (simp add: cs)
      then show ?thesis by blast
    qed
  next
    case False
    note notcrlf = this
    show ?thesis
    proof (cases "is_linebreak c")
      case True
      from 2(4) True notcrlf have "x = cur \<or> x \<in> set (splitlines_from [] cs)"
        by auto
      then show ?thesis
      proof
        assume "x = cur"
        then have "cur @ c # cs = [] @ x @ (c # cs)" by simp
        then show ?thesis by blast
      next
        assume "x \<in> set (splitlines_from [] cs)"
        with 2(2) True notcrlf obtain u v where "cs = u @ x @ v" by auto
        then have "cur @ c # cs = (cur @ c # u) @ x @ v" by simp
        then show ?thesis by blast
      qed
    next
      case False
      with 2(4) notcrlf have "x \<in> set (splitlines_from (cur @ [c]) cs)"
        by auto
      with 2(3) False notcrlf obtain u v where "(cur @ [c]) @ cs = u @ x @ v" by blast
      then show ?thesis by auto
    qed
  qed
qed

lemma strip_sub: "\<exists>u v. x = u @ strip x @ v"
proof -
  let ?y = "dropWhile isspace x"
  have "x = takeWhile isspace x @ ?y" by simp
  moreover have "?y = strip x @ rev (takeWhile isspace (rev ?y))"
    unfolding strip_def
    by (metis rev_append rev_rev_ident takeWhile_dropWhile_id)
  ultimately show ?thesis by metis
qed

lemma contains_trans:
  assumes "contains x m" and "s = u @ x @ v"
  shows "contains s m"
proof -
  from assms(1) obtain a b where "x = a @ m @ b"
    by (auto simp: contains_iff)
  with assms(2) have "s = (u @ a) @ m @ (b @ v)" by simp
  then show ?thesis
    unfolding contains_iff by blast
qed

lemma contains_self: "contains m m"
  unfolding contains_iff by (metis append_Nil append_Nil2)

lemma marker_lines_free:
  assumes "\<not> has_marker s"
  shows "marker_lines s = []"
proof -
  have "\<not> is_marker (strip l)" if l: "l \<in> set (splitlines s)" for l
  proof
    assume m: "is_marker (strip l)"
    from l obtain u v where s: "s = u @ l @ v"
      using splitlines_from_sub [of l "[]" s] by (auto simp: splitlines_def)
    obtain u' v' where l': "l = u' @ strip l @ v'"
      using strip_sub by blast
    have "contains l (strip l)"
      by (rule contains_trans [OF contains_self l'])
    then have "contains s (strip l)"
      by (rule contains_trans [OF _ s])
    with m assms show False
      by (auto simp: is_marker_def has_marker_def)
  qed
  then show ?thesis
    by (simp add: marker_lines_def filter_empty_conv)
qed

lemma concat_replicate3_length: "length (concat (replicate n [a, b, c])) = 3 * n"
  by (induction n) auto

lemma concat_replicate3_nth:
  "k < n \<Longrightarrow>
     concat (replicate n [a, b, c]) ! (3 * k) = a \<and>
     concat (replicate n [a, b, c]) ! (3 * k + 1) = b \<and>
     concat (replicate n [a, b, c]) ! (3 * k + 2) = c"
proof (induction n arbitrary: k)
  case 0
  then show ?case by simp
next
  case (Suc n)
  show ?case
  proof (cases k)
    case 0
    then show ?thesis by simp
  next
    case (Suc k')
    with Suc.prems have "k' < n" by simp
    from Suc.IH [OF this] show ?thesis
      by (simp add: Suc)
  qed
qed

lemma check_sequence_triples:
  "k \<le> n \<Longrightarrow>
     check_sequence (concat (replicate n [search_marker, separator, replace_marker])) (3 * k) = None"
proof (induction "n - k" arbitrary: k)
  case 0
  then have "k = n" by simp
  then show ?case
    by (subst check_sequence.simps) (simp add: concat_replicate3_length)
next
  case (Suc d)
  then have k: "k < n" and d: "d = n - Suc k" and le: "Suc k \<le> n"
    by simp_all
  have "3 * Suc k = 3 * k + 3" by simp
  with Suc(1) [OF d le] have
    "check_sequence (concat (replicate n [search_marker, separator, replace_marker])) (3 * k + 3) = None"
    by metis
  with concat_replicate3_nth [OF k, of search_marker separator replace_marker] k
  show ?case
    by (subst check_sequence.simps) (simp add: concat_replicate3_length)
qed

lemma check_matches_free:
  "\<forall>b \<in> set bs. \<not> has_marker (fst b) \<and> \<not> has_marker (snd b) \<Longrightarrow> check_matches i bs = None"
  by (induction bs arbitrary: i) auto

lemma startswith_prefix: "startswith x (p @ e) \<Longrightarrow> startswith x p"
  by (auto simp: startswith_iff_append)

lemma no_early_occurrence:
  assumes "\<not> contains a m" and "c \<notin> set m" and "j < length a"
  shows "\<not> startswith (drop j (a @ c # t)) (c' # m)"
proof
  assume st: "startswith (drop j (a @ c # t)) (c' # m)"
  from assms(3) obtain x a'' where d: "drop j a = x # a''"
    by (cases "drop j a") auto
  with assms(3) have "drop j (a @ c # t) = x # a'' @ c # t"
    by simp
  with st have "startswith (a'' @ c # t) m" by simp
  with assms(2) have "startswith a'' m"
    by (simp add: startswith_append_barrier)
  then obtain v where "a'' = m @ v"
    by (auto simp: startswith_iff_append)
  with d have "a = (take j a @ [x]) @ m @ v"
    by (metis append.assoc append_Cons append_Nil append_take_drop_id)
  then have "contains a m"
    unfolding contains_iff by blast
  with assms(1) show False by simp
qed

lemma index_of_behind_free:
  assumes "\<not> contains a m" and "c \<notin> set m" and "startswith t e"
  shows "index_of (a @ c # m @ t) (c # m @ e) = Some (length a)"
proof -
  from assms(3) obtain t' where t: "t = e @ t'"
    by (auto simp: startswith_iff_append)
  have "startswith (drop (length a) (a @ c # m @ t)) (c # m @ e)"
    by (simp add: t startswith_iff_append)
  moreover have "\<not> startswith (drop j (a @ c # m @ t)) (c # m @ e)" if "j < length a" for j
  proof
    assume "startswith (drop j (a @ c # m @ t)) (c # m @ e)"
    then have "startswith (drop j (a @ c # m @ t)) ((c # m) @ e)" by simp
    then have "startswith (drop j (a @ c # m @ t)) (c # m)"
      by (rule startswith_prefix)
    with no_early_occurrence [OF assms(1,2) that] show False by blast
  qed
  ultimately show ?thesis
    by (simp add: index_of_Some_iff)
qed

lemma LF_notin_markers:
  "LF \<notin> set search_marker" "LF \<notin> set separator" "LF \<notin> set replace_marker"
  by (simp_all add: LF_def search_marker_def separator_def replace_marker_def str_def)

lemma marker_lengths:
  "length search_marker = 14" "length separator = 7" "length replace_marker = 15"
  by (simp_all add: search_marker_def separator_def replace_marker_def str_def)

lemma match_at_block:
  assumes "\<not> has_marker s" and "\<not> has_marker r"
  shows "match_at (search_marker @ LF # s @ LF # separator @ LF # r @ LF # replace_marker @ rest)
           = Some (s, r, rest)"
proof -
  let ?t2 = "r @ LF # replace_marker @ rest"
  let ?t1 = "s @ LF # separator @ LF # ?t2"
  have st: "startswith (search_marker @ LF # ?t1) (search_marker @ [LF])"
    by (simp add: startswith_iff_append)
  have d1: "drop (length search_marker + 1) (search_marker @ LF # ?t1) = ?t1"
    by simp
  have i1: "index_of ?t1 (LF # separator @ [LF]) = Some (length s)"
    using assms(1) by (intro index_of_behind_free LF_notin_markers) (simp_all add: has_marker_def)
  have d2: "drop (length s + (length separator + 2)) ?t1 = ?t2"
    by simp
  have "index_of (r @ LF # replace_marker @ rest) (LF # replace_marker @ []) = Some (length r)"
    using assms(2) by (intro index_of_behind_free LF_notin_markers) (simp_all add: has_marker_def)
  then have i2: "index_of ?t2 (LF # replace_marker) = Some (length r)"
    by simp
  have d3: "drop (length r + (length replace_marker + 1)) ?t2 = rest"
    by simp
  show ?thesis
    unfolding match_at_def Let_def
    by (simp only: st d1 i1 d2 i2 d3 if_True option.case take_all take_append take0
        append_Nil2 diff_self_eq_0 order_refl)
qed

lemma join_str_Cons:
  "join_str sep (x # xs) = (if xs = [] then x else x @ sep @ join_str sep xs)"
  by (cases xs) simp_all

lemma contains_Cons: "contains g m \<Longrightarrow> contains (x # g) m"
  by (rule contains_trans [where u = "[x]" and v = "[]"]) simp_all

lemma search_marker_Cons: "search_marker = 60 # tl search_marker"
  by (simp add: search_marker_def str_def)

lemma match_at_free:
  assumes "\<not> contains g search_marker"
  shows "match_at (g @ LF # t) = None"
proof -
  have "\<not> startswith (g @ LF # t) (search_marker @ [LF])"
  proof
    assume "startswith (g @ LF # t) (search_marker @ [LF])"
    then have "startswith (g @ LF # t) search_marker"
      by (rule startswith_prefix)
    then have "startswith g search_marker"
      by (simp add: startswith_append_barrier LF_notin_markers)
    then have "contains g search_marker"
      by (auto simp: startswith_iff_append contains_iff intro: exI [of _ "[]"])
    with assms show False by simp
  qed
  then show ?thesis
    by (simp add: match_at_def)
qed

lemma regex_findall_skip_free:
  "\<not> contains g search_marker \<Longrightarrow> regex_findall (g @ LF # t) = regex_findall t"
proof (induction g)
  case Nil
  from match_at_free [of "[]" t] show ?case
    by (simp add: contains_def search_marker_def str_def)
next
  case (Cons x g)
  then have g: "\<not> contains g search_marker"
    by (auto dest: contains_Cons)
  from match_at_free [OF Cons.prems, of t] Cons.IH [OF g] show ?case
    by simp
qed

lemma match_at_short:
  assumes "\<not> contains g search_marker"
  shows "match_at g = None"
proof -
  have "\<not> startswith g (search_marker @ [LF])"
  proof
    assume "startswith g (search_marker @ [LF])"
    then have "startswith g search_marker"
      by (rule startswith_prefix)
    then have "contains g search_marker"
      by (auto simp: startswith_iff_append contains_iff intro: exI [of _ "[]"])
    with assms show False by simp
  qed
  then show ?thesis
    by (simp add: match_at_def)
qed

lemma regex_findall_free:
  "\<not> contains g search_marker \<Longrightarrow> regex_findall g = []"
proof (induction g)
  case Nil
  show ?case by simp
next
  case (Cons x g)
  then have g: "\<not> contains g search_marker"
    by (auto dest: contains_Cons)
  from match_at_short [OF Cons.prems] Cons.IH [OF g] show ?case
    by simp
qed

lemma regex_findall_free_segments:
  "list_all (\<lambda>g. \<not> has_marker g) post \<Longrightarrow> regex_findall (join_str [LF] post) = []"
proof (induction post)
  case Nil
  show ?case by simp
next
  case (Cons g post)
  then have g: "\<not> contains g search_marker"
    by (simp add: has_marker_def)
  show ?case
  proof (cases "post = []")
    case True
    with g show ?thesis by (simp add: regex_findall_free)
  next
    case False
    with g Cons show ?thesis
      by (simp add: join_str_Cons regex_findall_skip_free)
  qed
qed

lemma regex_findall_skip_segments:
  "list_all (\<lambda>g. \<not> has_marker g) pre \<Longrightarrow> segs \<noteq> [] \<Longrightarrow>
     regex_findall (join_str [LF] (pre @ segs)) = regex_findall (join_str [LF] segs)"
proof (induction pre)
  case Nil
  show ?case by simp
next
  case (Cons g pre)
  then have g: "\<not> contains g search_marker"
    by (simp add: has_marker_def)
  with Cons show ?case
    by (simp add: join_str_Cons regex_findall_skip_free)
qed

lemma regex_findall_match:
  assumes "match_at t = Some (g1, g2, rest)"
  shows "regex_findall t = (g1, g2) # regex_findall rest"
proof (cases t)
  case Nil
  with assms show ?thesis
    by (simp add: match_at_def search_marker_def str_def)
next
  case (Cons c cs)
  with assms show ?thesis by simp
qed

lemma regex_findall_block:
  assumes "\<not> has_marker s" and "\<not> has_marker r"
  shows "regex_findall
           (join_str [LF] ([search_marker, s, separator, r, replace_marker] @ segs)) =
         (s, r) # regex_findall (join_str [LF] segs)"
proof -
  let ?rest = "if segs = [] then [] else LF # join_str [LF] segs"
  have shape: "join_str [LF] ([search_marker, s, separator, r, replace_marker] @ segs) =
      search_marker @ LF # s @ LF # separator @ LF # r @ LF # replace_marker @ ?rest"
    by (simp add: join_str_Cons)
  have "regex_findall ?rest = regex_findall (join_str [LF] segs)"
    using regex_findall_skip_free [of "[]" "join_str [LF] segs"]
    by (simp add: contains_def search_marker_def str_def)
  moreover have "regex_findall
      (search_marker @ LF # s @ LF # separator @ LF # r @ LF # replace_marker @ ?rest) =
      (s, r) # regex_findall ?rest"
    by (rule regex_findall_match [OF match_at_block [OF assms]])
  ultimately show ?thesis
    by (simp only: shape)
qed

lemma regex_findall_patch_text:
  assumes "list_all marker_free_item items" and "list_all (\<lambda>g. \<not> has_marker g) post"
  shows "regex_findall (patch_text items post) = map snd items"
  using assms(1)
proof (induction items)
  case Nil
  from regex_findall_free_segments [OF assms(2)] show ?case
    by (simp add: patch_text_def)
next
  case (Cons item items)
  obtain pre s r where item: "item = (pre, s, r)"
    by (cases item)
  from Cons.prems have free: "list_all (\<lambda>g. \<not> has_marker g) pre" "\<not> has_marker s" "\<not> has_marker r"
    and rest: "list_all marker_free_item items"
    by (simp_all add: item)
  let ?segs = "concat (map block_segments items) @ post"
  have "regex_findall (patch_text (item # items) post) =
        regex_findall (join_str [LF] (pre @ [search_marker, s, separator, r, replace_marker] @ ?segs))"
    by (simp add: patch_text_def item)
  also have "\<dots> = regex_findall (join_str [LF] ([search_marker, s, separator, r, replace_marker] @ ?segs))"
    by (rule regex_findall_skip_segments [OF free(1)]) simp
  also have "\<dots> = (s, r) # regex_findall (join_str [LF] ?segs)"
    by (rule regex_findall_block [OF free(2,3)])
  also have "regex_findall (join_str [LF] ?segs) = map snd items"
    using Cons.IH [OF rest] by (simp add: patch_text_def)
  finally show ?case
    by (simp add: item)
qed

lemma count_str_free:
  "\<not> has_marker g \<Longrightarrow> is_marker m \<Longrightarrow> count_str g m = 0"
  by (auto simp: count_str_zero_iff has_marker_def is_marker_def)

lemma count_free_segments:
  "list_all (\<lambda>g. \<not> has_marker g) gs \<Longrightarrow> is_marker m \<Longrightarrow>
     sum_list (map (\<lambda>s. count_str s m) gs) = 0"
  by (induction gs) (simp_all add: count_str_free)

lemma count_markers_in_markers:
  "count_str search_marker search_marker = 1"
  "count_str separator search_marker = 0"
  "count_str replace_marker search_marker = 0"
  "count_str search_marker separator = 0"
  "count_str separator separator = 1"
  "count_str replace_marker separator = 0"
  "count_str search_marker replace_marker = 0"
  "count_str separator replace_marker = 0"
  "count_str replace_marker replace_marker = 1"
  by (simp_all add: count_str_def search_marker_def separator_def replace_marker_def str_def)

lemma count_block_segments:
  assumes "marker_free_item item" and "is_marker m"
  shows "sum_list (map (\<lambda>s. count_str s m) (block_segments item)) = 1"
proof -
  obtain pre s r where item: "item = (pre, s, r)"
    by (cases item)
  with assms(1) have "sum_list (map (\<lambda>s. count_str s m) pre) = 0"
    "count_str s m = 0" "count_str r m = 0"
    using assms(2) by (simp_all add: count_free_segments count_str_free)
  then show ?thesis
    using assms(2) by (auto simp: item is_marker_def count_markers_in_markers)
qed

lemma count_patch_segments:
  assumes "list_all marker_free_item items" and "list_all (\<lambda>g. \<not> has_marker g) post"
    and "is_marker m"
  shows "sum_list (map (\<lambda>s. count_str s m) (concat (map block_segments items) @ post)) =
         length items"
  using assms(1)
proof (induction items)
  case Nil
  show ?case
    using assms(2,3) by (simp add: count_free_segments)
next
  case (Cons item items)
  then show ?case
    using assms(3) by (simp add: count_block_segments)
qed

lemma marker_not_Nil: "is_marker m \<Longrightarrow> m \<noteq> []"
  using is_marker_Nil by blast

lemma LF_notin_marker: "is_marker m \<Longrightarrow> LF \<notin> set m"
  using LF_notin_markers by (auto simp: is_marker_def)

lemma count_patch_text:
  assumes "list_all marker_free_item items" and "list_all (\<lambda>g. \<not> has_marker g) post"
    and "is_marker m"
  shows "count_str (patch_text items post) m = length items"
  unfolding patch_text_def
  by (simp only: count_str_join [OF marker_not_Nil [OF assms(3)] LF_notin_marker [OF assms(3)]]
      count_patch_segments [OF assms])

lemma marker_lines_of_markers:
  "marker_lines search_marker = [search_marker]"
  "marker_lines separator = [separator]"
  "marker_lines replace_marker = [replace_marker]"
  by (simp_all add: marker_lines_def splitlines_def is_linebreak_def strip_def isspace_def
      is_marker_def CR_def search_marker_def separator_def replace_marker_def str_def)

lemma marker_lines_free_segments:
  "list_all (\<lambda>g. \<not> has_marker g) gs \<Longrightarrow> concat (map marker_lines gs) = []"
  by (induction gs) (simp_all add: marker_lines_free)

lemma marker_lines_block_segments:
  assumes "marker_free_item item"
  shows "concat (map marker_lines (block_segments item)) =
         [search_marker, separator, replace_marker]"
proof -
  obtain pre s r where item: "item = (pre, s, r)"
    by (cases item)
  with assms show ?thesis
    by (simp add: marker_lines_free_segments marker_lines_free marker_lines_of_markers)
qed

lemma marker_lines_patch_text:
  assumes "list_all marker_free_item items" and "list_all (\<lambda>g. \<not> has_marker g) post"
  shows "marker_lines (patch_text items post) =
         concat (replicate (length items) [search_marker, separator, replace_marker])"
proof -
  have "concat (map marker_lines (concat (map block_segments items) @ post)) =
        concat (replicate (length items) [search_marker, separator, replace_marker])"
    using assms(1)
  proof (induction items)
    case Nil
    show ?case
      using assms(2) by (simp add: marker_lines_free_segments)
  next
    case (Cons item items)
    then show ?case
      by (simp add: marker_lines_block_segments)
  qed
  then show ?thesis
    by (simp add: patch_text_def marker_lines_join)
qed

lemma validate_patch_text:
  assumes "list_all marker_free_item items" and "list_all (\<lambda>g. \<not> has_marker g) post"
  shows "validate_block_integrity (patch_text items post) = Inr ()"
proof -
  have "count_str (patch_text items post) search_marker = length items"
       "count_str (patch_text items post) separator = length items"
       "count_str (patch_text items post) replace_marker = length items"
    by (simp_all add: count_patch_text [OF assms] is_marker_def)
  moreover have "check_sequence (marker_lines (patch_text items post)) 0 = None"
    using check_sequence_triples [of 0 "length items"]
    by (simp add: marker_lines_patch_text [OF assms])
  ultimately show ?thesis
    by (simp add: validate_cases)
qed

lemmas run_defs =
  eval_defs parse_search_replace_blocks_def validate_cases
  check_sequence.simps scan_lines.simps find_line.simps

text \<open>
  Claim C1, as stated, fails.  In the first text below the SEARCH marker is followed by
  a space: trimmed, the marker lines are one triple in the right order, and validation
  succeeds; the parser compares untrimmed text, finds no block, and fails.  In the
  second text the search payload is a line of eight \<open>=\<close>, which is no marker line, and
  validation fails as unbalanced.  The empty text has zero triples; validation succeeds
  and the parser fails instead of returning no block.
\<close>

theorem trimmed_marker_counterexample:
  "well_formed_patch
     (text_of_lines [''<<<<<<< SEARCH '', ''a'', ''======='', ''b'', ''>>>>>>> REPLACE'']) 1
   \<and> validate_block_integrity
       (text_of_lines [''<<<<<<< SEARCH '', ''a'', ''======='', ''b'', ''>>>>>>> REPLACE''])
       = Inr ()
   \<and> parse_search_replace_blocks
       (text_of_lines [''<<<<<<< SEARCH '', ''a'', ''======='', ''b'', ''>>>>>>> REPLACE''])
       = Inl InvalidPatchFormat
   \<and> well_formed_patch
       (text_of_lines [''<<<<<<< SEARCH'', ''========'', ''======='', ''b'', ''>>>>>>> REPLACE''])
       1
   \<and> validate_block_integrity
       (text_of_lines [''<<<<<<< SEARCH'', ''========'', ''======='', ''b'', ''>>>>>>> REPLACE''])
       = Inl (UnbalancedMarkers 1 2 1)
   \<and> well_formed_patch [] 0
   \<and> validate_block_integrity [] = Inr ()
   \<and> parse_search_replace_blocks [] = Inl InvalidPatchFormat"
  by (simp add: run_defs well_formed_patch_def)

text \<open>
  A second way in which a well-formed text yields fewer blocks than it has triples: a
  block whose search part has no line at all is not matched by the regular expression,
  and when an earlier block was matched the line scan is not tried.  The parser returns
  one block for two triples.
\<close>

lemma zero_line_search_block_is_dropped:
  "well_formed_patch
     (text_of_lines [''<<<<<<< SEARCH'', ''a'', ''======='', ''b'', ''>>>>>>> REPLACE'',
        ''<<<<<<< SEARCH'', ''======='', ''c'', ''>>>>>>> REPLACE'']) 2
   \<and> parse_search_replace_blocks
       (text_of_lines [''<<<<<<< SEARCH'', ''a'', ''======='', ''b'', ''>>>>>>> REPLACE'',
          ''<<<<<<< SEARCH'', ''======='', ''c'', ''>>>>>>> REPLACE''])
       = Inr [(str ''a'', str ''b'')]"
proof -
  have "concat (replicate 2 [search_marker, separator, replace_marker]) =
      [search_marker, separator, replace_marker, search_marker, separator, replace_marker]"
    by (simp add: numeral_2_eq_2)
  moreover have "marker_lines
      (text_of_lines [''<<<<<<< SEARCH'', ''a'', ''======='', ''b'', ''>>>>>>> REPLACE'',
         ''<<<<<<< SEARCH'', ''======='', ''c'', ''>>>>>>> REPLACE'']) =
      [search_marker, separator, replace_marker, search_marker, separator, replace_marker]"
    by (simp add: eval_defs)
  ultimately have "well_formed_patch
     (text_of_lines [''<<<<<<< SEARCH'', ''a'', ''======='', ''b'', ''>>>>>>> REPLACE'',
        ''<<<<<<< SEARCH'', ''======='', ''c'', ''>>>>>>> REPLACE'']) 2"
    by (simp only: well_formed_patch_def)
  moreover have "parse_search_replace_blocks
       (text_of_lines [''<<<<<<< SEARCH'', ''a'', ''======='', ''b'', ''>>>>>>> REPLACE'',
          ''<<<<<<< SEARCH'', ''======='', ''c'', ''>>>>>>> REPLACE''])
       = Inr [(str ''a'', str ''b'')]"
    by (simp add: run_defs)
  ultimately show ?thesis
    by blast
qed

text \<open>
  Claim C1, amended.  Let a patch text consist of \<open>N \<ge> 1\<close> blocks laid out exactly: each
  marker is a line of its own with nothing around it, each payload has at least one
  line, the parts are joined by \<open>\n\<close>, and there may be further text before, between
  and behind the blocks.  If no payload and no further text contains one of the three
  marker literals as a substring, then validation succeeds and the parser returns
  exactly the \<open>N\<close> pairs of search and replace text, in the order of the text.
\<close>

theorem exact_blocks_validate_and_parse:
  assumes "items \<noteq> []"
    and "list_all marker_free_item items"
    and "list_all (\<lambda>g. \<not> has_marker g) post"
  shows "validate_block_integrity (patch_text items post) = Inr ()
       \<and> parse_search_replace_blocks (patch_text items post) = Inr (map snd items)
       \<and> length (map snd items) = length items"
proof -
  have v: "validate_block_integrity (patch_text items post) = Inr ()"
    by (rule validate_patch_text [OF assms(2,3)])
  have f: "regex_findall (patch_text items post) = map snd items"
    by (rule regex_findall_patch_text [OF assms(2,3)])
  have "\<forall>b \<in> set (map snd items). \<not> has_marker (fst b) \<and> \<not> has_marker (snd b)"
    using assms(2) by (auto simp: list_all_iff)
  then have c: "check_matches 0 (map snd items) = None"
    by (rule check_matches_free)
  from assms(1) v f c show ?thesis
    by (simp add: parse_search_replace_blocks_def)
qed

theorem exact_blocks_validate_and_parse_witness:
  "validate_block_integrity
     (text_of_lines [''<<<<<<< SEARCH'', ''a'', ''======='', ''b'', ''>>>>>>> REPLACE'', [],
        ''<<<<<<< SEARCH'', ''c'', ''======='', [], ''>>>>>>> REPLACE'', []]) = Inr ()
   \<and> parse_search_replace_blocks
     (text_of_lines [''<<<<<<< SEARCH'', ''a'', ''======='', ''b'', ''>>>>>>> REPLACE'', [],
        ''<<<<<<< SEARCH'', ''c'', ''======='', [], ''>>>>>>> REPLACE'', []])
     = Inr [(str ''a'', str ''b''), (str ''c'', [])]"
proof -
  let ?items = "[([], str ''a'', str ''b''), ([[]], str ''c'', [])]"
  have ne: "?items \<noteq> []"
    by simp
  have free: "list_all marker_free_item ?items"
    by (simp add: eval_defs)
  have post: "list_all (\<lambda>g. \<not> has_marker g) [[]]"
    by (simp add: eval_defs)
  have shape: "patch_text ?items [[]] =
      text_of_lines [''<<<<<<< SEARCH'', ''a'', ''======='', ''b'', ''>>>>>>> REPLACE'', [],
        ''<<<<<<< SEARCH'', ''c'', ''======='', [], ''>>>>>>> REPLACE'', []]"
    by (simp add: patch_text_def eval_defs)
  from exact_blocks_validate_and_parse [OF ne free post] show ?thesis
    by (simp add: shape)
qed

section \<open>The line scan: facts and claims\<close>

lemma find_line_found:
  "x \<notin> set mid \<Longrightarrow>
     find_line (a @ mid @ x # rest) x (length a) = Some (length a + length mid)"
proof (induction mid arbitrary: a)
  case Nil
  show ?case
    by (subst find_line.simps) simp
next
  case (Cons m mid)
  then have "m \<noteq> x" "x \<notin> set mid" by auto
  from Cons.IH [OF this(2), of "a @ [m]"] \<open>m \<noteq> x\<close> show ?case
    by (subst find_line.simps) (simp add: nth_append)
qed

lemma find_line_missing:
  "x \<notin> set b \<Longrightarrow> find_line (a @ b) x (length a) = None"
proof (induction b arbitrary: a)
  case Nil
  show ?case
    by (subst find_line.simps) simp
next
  case (Cons m b)
  then have "m \<noteq> x" "x \<notin> set b" by auto
  from Cons.IH [OF this(2), of "a @ [m]"] \<open>m \<noteq> x\<close> show ?case
    by (subst find_line.simps) (simp add: nth_append)
qed

lemma scan_lines_done:
  "length lines \<le> i \<Longrightarrow> scan_lines lines i blocks = Inr blocks"
  by (subst scan_lines.simps) simp

lemma scan_lines_skip:
  "l \<noteq> search_marker \<Longrightarrow>
     scan_lines (pre @ l # rest) (length pre) blocks =
     scan_lines (pre @ l # rest) (length pre + 1) blocks"
  by (subst scan_lines.simps) simp

lemma scan_lines_missing_separator:
  assumes "separator \<notin> set rest"
  shows "scan_lines (pre @ search_marker # rest) (length pre) blocks = Inl MissingSeparator"
proof -
  have "find_line ((pre @ [search_marker]) @ rest) separator (length (pre @ [search_marker])) = None"
    by (rule find_line_missing [OF assms])
  then show ?thesis
    by (subst scan_lines.simps) simp
qed

lemma scan_lines_missing_replace:
  assumes "separator \<notin> set mid1" and "replace_marker \<notin> set rest"
  shows "scan_lines (pre @ search_marker # mid1 @ separator # rest) (length pre) blocks =
         Inl MissingReplaceMarker"
proof -
  let ?lines = "pre @ search_marker # mid1 @ separator # rest"
  have "find_line ((pre @ [search_marker]) @ mid1 @ separator # rest) separator
          (length (pre @ [search_marker])) = Some (length (pre @ [search_marker]) + length mid1)"
    by (rule find_line_found [OF assms(1)])
  then have s: "find_line ?lines separator (Suc (length pre)) =
      Some (Suc (length pre + length mid1))"
    by simp
  have "find_line ((pre @ search_marker # mid1 @ [separator]) @ rest) replace_marker
          (length (pre @ search_marker # mid1 @ [separator])) = None"
    by (rule find_line_missing [OF assms(2)])
  then have r: "find_line ?lines replace_marker (Suc (Suc (length pre + length mid1))) = None"
    by simp
  show ?thesis
    by (subst scan_lines.simps) (simp add: s r)
qed

lemma scan_lines_block:
  assumes "separator \<notin> set mid1" and "replace_marker \<notin> set mid2"
  shows "scan_lines (pre @ search_marker # mid1 @ separator # mid2 @ replace_marker # rest)
           (length pre) blocks =
         (if has_marker (join_str [LF] mid1) then Inl (SearchTextMarkers (length blocks + 1))
          else if has_marker (join_str [LF] mid2) then Inl (ReplaceTextMarkers (length blocks + 1))
          else scan_lines (pre @ search_marker # mid1 @ separator # mid2 @ replace_marker # rest)
                 (length pre + length mid1 + length mid2 + 3)
                 (blocks @ [(join_str [LF] mid1, join_str [LF] mid2)]))"
proof -
  let ?lines = "pre @ search_marker # mid1 @ separator # mid2 @ replace_marker # rest"
  have "find_line ((pre @ [search_marker]) @ mid1 @ separator # mid2 @ replace_marker # rest)
          separator (length (pre @ [search_marker])) =
        Some (length (pre @ [search_marker]) + length mid1)"
    by (rule find_line_found [OF assms(1)])
  then have s: "find_line ?lines separator (Suc (length pre)) =
      Some (Suc (length pre + length mid1))"
    by simp
  have "find_line ((pre @ search_marker # mid1 @ [separator]) @ mid2 @ replace_marker # rest)
          replace_marker (length (pre @ search_marker # mid1 @ [separator])) =
        Some (length (pre @ search_marker # mid1 @ [separator]) + length mid2)"
    by (rule find_line_found [OF assms(2)])
  then have r: "find_line ?lines replace_marker (Suc (Suc (length pre + length mid1))) =
      Some (Suc (Suc (length pre + length mid1 + length mid2)))"
    by simp
  have t1: "take (length mid1) (drop (Suc (length pre)) ?lines) = mid1"
    by simp
  have t2: "take (length mid2) (drop (Suc (Suc (length pre + length mid1))) ?lines) = mid2"
    by simp
  have i: "Suc (Suc (Suc (length pre + length mid1 + length mid2))) =
           length pre + length mid1 + length mid2 + 3"
    by simp
  have "scan_lines ?lines (length pre) blocks =
      (if has_marker (join_str [LF] mid1) then Inl (SearchTextMarkers (length blocks + 1))
       else if has_marker (join_str [LF] mid2) then Inl (ReplaceTextMarkers (length blocks + 1))
       else scan_lines ?lines (Suc (Suc (Suc (length pre + length mid1 + length mid2))))
              (blocks @ [(join_str [LF] mid1, join_str [LF] mid2)]))"
    by (subst scan_lines.simps)
       (simp add: s r t1 t2 Let_def del: drop_append take_append drop_Suc_Cons)
  then show ?thesis
    by (simp only: i)
qed

lemma parse_fallback:
  assumes "validate_block_integrity p = Inr ()" and "regex_findall p = []"
  shows "parse_search_replace_blocks p =
           (case scan_lines (splitlines p) 0 [] of
              Inl e \<Rightarrow> Inl e
            | Inr blocks \<Rightarrow> if blocks = [] then Inl InvalidPatchFormat else Inr blocks)"
  using assms by (simp add: parse_search_replace_blocks_def split: sum.splits)

text \<open>
  Claim C8, as stated, fails: it leaves out the marker-leakage guard of the line scan.
  The text below has \<open>\r\n\<close> line ends, so the regular expression finds nothing and the
  line scan runs.  Its first line is the SEARCH marker, a separator line follows and a
  REPLACE line follows that; the lines between the markers are not taken as a block,
  the scan does not resume, and parsing fails because the search payload contains the
  separator literal.
\<close>

theorem line_scan_leakage_counterexample:
  "validate_block_integrity
     (text_of_crlf_lines [''<<<<<<< SEARCH'', ''x======='', ''======='', ''b'',
        ''>>>>>>> REPLACE'', ''z<<<<<<< SEARCH>>>>>>> REPLACE'']) = Inr ()
   \<and> regex_findall
     (text_of_crlf_lines [''<<<<<<< SEARCH'', ''x======='', ''======='', ''b'',
        ''>>>>>>> REPLACE'', ''z<<<<<<< SEARCH>>>>>>> REPLACE'']) = []
   \<and> splitlines
     (text_of_crlf_lines [''<<<<<<< SEARCH'', ''x======='', ''======='', ''b'',
        ''>>>>>>> REPLACE'', ''z<<<<<<< SEARCH>>>>>>> REPLACE''])
     = [search_marker, str ''x======='', separator, str ''b'', replace_marker,
        str ''z<<<<<<< SEARCH>>>>>>> REPLACE'']
   \<and> parse_search_replace_blocks
     (text_of_crlf_lines [''<<<<<<< SEARCH'', ''x======='', ''======='', ''b'',
        ''>>>>>>> REPLACE'', ''z<<<<<<< SEARCH>>>>>>> REPLACE''])
     = Inl (SearchTextMarkers 1)"
  by (simp add: run_defs text_of_crlf_lines_def)

text \<open>
  Claim C8, amended.  When validation has passed and the regular expression yields no
  block, the result of parsing is that of the line scan from line 0 with no blocks, and
  the invalid-format error if the scan ends with no block.  The scan ends with the
  blocks collected when no line is left, and steps over a line that is not the SEARCH
  marker.  At a line equal to the SEARCH marker it fails with the missing-separator
  error if no later line equals the separator, and with the missing-replace-marker
  error if no line behind the first such separator line equals the REPLACE marker.
  Otherwise the payloads are the lines strictly between the markers, joined by \<open>\n\<close>;
  if the search payload or the replace payload contains a marker literal the scan fails
  with the corresponding leakage error naming the number of the block, and else the
  block is appended and the scan resumes at the line behind the REPLACE marker.
\<close>

theorem line_scan_fallback:
  "(validate_block_integrity p = Inr () \<and> regex_findall p = [] \<longrightarrow>
      parse_search_replace_blocks p =
        (case scan_lines (splitlines p) 0 [] of
           Inl e \<Rightarrow> Inl e
         | Inr found \<Rightarrow> if found = [] then Inl InvalidPatchFormat else Inr found))
   \<and> (length lines \<le> i \<longrightarrow> scan_lines lines i blocks = Inr blocks)
   \<and> (l \<noteq> search_marker \<longrightarrow>
        scan_lines (pre @ l # rest) (length pre) blocks =
        scan_lines (pre @ l # rest) (length pre + 1) blocks)
   \<and> (separator \<notin> set rest \<longrightarrow>
        scan_lines (pre @ search_marker # rest) (length pre) blocks = Inl MissingSeparator)
   \<and> (separator \<notin> set mid1 \<and> replace_marker \<notin> set rest \<longrightarrow>
        scan_lines (pre @ search_marker # mid1 @ separator # rest) (length pre) blocks =
          Inl MissingReplaceMarker)
   \<and> (separator \<notin> set mid1 \<and> replace_marker \<notin> set mid2 \<longrightarrow>
        scan_lines (pre @ search_marker # mid1 @ separator # mid2 @ replace_marker # rest)
          (length pre) blocks =
          (if has_marker (join_str [LF] mid1) then
             Inl (SearchTextMarkers (length blocks + 1))
           else if has_marker (join_str [LF] mid2) then
             Inl (ReplaceTextMarkers (length blocks + 1))
           else
             scan_lines (pre @ search_marker # mid1 @ separator # mid2 @ replace_marker # rest)
               (length pre + length mid1 + length mid2 + 3)
               (blocks @ [(join_str [LF] mid1, join_str [LF] mid2)])))"
  using parse_fallback [of p] scan_lines_done [of lines i blocks]
    scan_lines_skip [of l pre rest blocks]
    scan_lines_missing_separator [of rest pre blocks]
    scan_lines_missing_replace [of mid1 rest pre blocks]
    scan_lines_block [of mid1 mid2 pre rest blocks]
  by blast

theorem line_scan_fallback_witness:
  "parse_search_replace_blocks
     (text_of_crlf_lines [''<<<<<<< SEARCH'', ''a'', ''======='', ''b'', ''>>>>>>> REPLACE''])
   = Inr [(str ''a'', str ''b'')]"
proof -
  let ?p = "text_of_crlf_lines
    [''<<<<<<< SEARCH'', ''a'', ''======='', ''b'', ''>>>>>>> REPLACE'']"
  let ?lines = "[] @ search_marker # [str ''a''] @ separator # [str ''b''] @ replace_marker # []"
  have v: "validate_block_integrity ?p = Inr ()"
    by (simp add: run_defs text_of_crlf_lines_def)
  have f: "regex_findall ?p = []"
    by (simp add: run_defs text_of_crlf_lines_def)
  have s: "splitlines ?p = ?lines"
    by (simp add: eval_defs text_of_crlf_lines_def)
  have m: "separator \<notin> set [str ''a'']" "replace_marker \<notin> set [str ''b'']"
    "\<not> has_marker (join_str [LF] [str ''a''])" "\<not> has_marker (join_str [LF] [str ''b''])"
    by (simp_all add: eval_defs)
  note T = line_scan_fallback
    [where p = ?p and pre = "[]" and ?mid1.0 = "[str ''a'']" and ?mid2.0 = "[str ''b'']"
       and rest = "[]" and blocks = "[]" and lines = ?lines and i = 5
       and l = "[]"]
  from T v f have 1: "parse_search_replace_blocks ?p =
      (case scan_lines ?lines 0 [] of
         Inl e \<Rightarrow> Inl e
       | Inr found \<Rightarrow> if found = [] then Inl InvalidPatchFormat else Inr found)"
    by (simp only: s simp_thms)
  from T m have 2: "scan_lines ?lines 0 [] =
      scan_lines ?lines 5 [(str ''a'', str ''b'')]"
    by simp
  from line_scan_fallback
    [where lines = ?lines and i = 5 and blocks = "[(str ''a'', str ''b'')]"]
  have 3: "scan_lines ?lines 5 [(str ''a'', str ''b'')] = Inr [(str ''a'', str ''b'')]"
    by simp
  from 1 2 3 show ?thesis
    by simp
qed

end
